theory Spec2Isabelle
  imports Complex_Main "HOL-Library.Sublist"
begin

section \<open>The task queue server of \<^verbatim>\<open>server.py\<close>\<close>

text \<open>
  The development follows \<^verbatim>\<open>server.py\<close> class by class: \<^verbatim>\<open>Task\<close>, \<^verbatim>\<open>TaskQueue\<close>,
  \<^verbatim>\<open>QueueDict\<close> and \<^verbatim>\<open>TaskQueueServer\<close>. Mutation of objects is explicit state
  passing: a method returns its result together with the updated object.

  What the program takes from its environment is an argument of the model:
  \<^item> the reading of \<^verbatim>\<open>time.time()\<close> is the argument \<open>now\<close>, the real number that the float
    stands for; the subtraction of two readings rounds as binary64 does; one queue
    operation sees one reading of the clock;
  \<^item> the identifier drawn by \<^verbatim>\<open>uuid.uuid4()\<close> is a field of the request's environment;
  \<^item> the bytes a connection delivers are a list of chunks, each of which either decodes
    to text or does not;
  \<^item> \<^verbatim>\<open>pickle.dump\<close> and \<^verbatim>\<open>pickle.load\<close> are parameters of the two persistence
    functions, and the disk is a map from paths to file contents.
  Python text is a list of characters.
\<close>

subsection \<open>Exceptions\<close>

datatype exn =
    ParserError
  | IndexError
  | ValueError
  | OSError
  | UnpicklingError

subsection \<open>Task\<close>

text \<open>
  The field \<^verbatim>\<open>length\<close> is the third token of the ADD request, kept as text
  (\<^verbatim>\<open>Task(str(uuid.uuid4()), params[2], params[3], self._timeout)\<close>).
\<close>

record task =
  task_id :: string
  length_f :: string
  data :: string
  timeout :: int
  is_waiting :: bool
  start_wait_time :: "real option"

definition Task :: "string \<Rightarrow> string \<Rightarrow> string \<Rightarrow> int \<Rightarrow> task" where
  "Task tid len dat tmo =
     \<lparr>task_id = tid, length_f = len, data = dat, timeout = tmo,
      is_waiting = False, start_wait_time = None\<rparr>"

text \<open>
  A float is the real number it stands for. The difference of two floats is the exact
  difference rounded to the nearest binary64 value, ties to the even significand:
  \<open>float_exponent\<close> is the binary exponent of the exact result (that of the subnormal
  range at least), \<open>float_ulp\<close> the distance of neighbouring values with 53 significant
  bits at that exponent, and \<open>float_round\<close> the nearest multiple of it. Overflow to
  infinity is left out: clock readings are far from it.
  Python's \<^verbatim>\<open>int(x)\<close> on a float truncates towards zero.
\<close>

definition round_half_even :: "real \<Rightarrow> int" where
  "round_half_even y =
     (let f = \<lfloor>y\<rfloor> in
      if y - real_of_int f < 1 / 2 then f
      else if 1 / 2 < y - real_of_int f then f + 1
      else if even f then f else f + 1)"

definition float_exponent :: "real \<Rightarrow> int" where
  "float_exponent x = max \<lfloor>log 2 \<bar>x\<bar>\<rfloor> (- 1022)"

text \<open>The logarithm is not computed: the exponent has no code equation.\<close>

declare float_exponent_def [code del]

definition float_ulp :: "real \<Rightarrow> real" where
  "float_ulp x = 2 powr real_of_int (float_exponent x - 52)"

definition float_round :: "real \<Rightarrow> real" where
  "float_round x =
     (if x = 0 then 0
      else float_ulp x * real_of_int (round_half_even (x / float_ulp x)))"

definition float_sub :: "real \<Rightarrow> real \<Rightarrow> real" where
  "float_sub a b = float_round (a - b)"

definition int_of_float :: "real \<Rightarrow> int" where
  "int_of_float x = (if 0 \<le> x then \<lfloor>x\<rfloor> else \<lceil>x\<rceil>)"

definition update :: "real \<Rightarrow> task \<Rightarrow> task" where
  "update now t =
     (case start_wait_time t of
        None \<Rightarrow> t
      | Some s \<Rightarrow>
          if int_of_float (float_sub now s) \<ge> timeout t
          then t\<lparr>is_waiting := False, start_wait_time := None\<rparr>
          else t)"

definition start_wait :: "real \<Rightarrow> task \<Rightarrow> task" where
  "start_wait now t = t\<lparr>start_wait_time := Some now, is_waiting := True\<rparr>"

subsection \<open>TaskQueue\<close>

text \<open>
  A queue is the list \<^verbatim>\<open>_tasks\<close>. The \<^verbatim>\<open>for\<close> loops with their early returns are
  recursion on the list: the head is the task the loop looks at, the recursive call is
  the rest of the iteration.
\<close>

type_synonym task_queue = "task list"

definition TaskQueue :: task_queue where
  "TaskQueue = []"

definition add_task :: "task \<Rightarrow> task_queue \<Rightarrow> task_queue" where
  "add_task t q = q @ [t]"

fun get_task :: "real \<Rightarrow> task_queue \<Rightarrow> task option \<times> task_queue" where
  "get_task now [] = (None, [])"
| "get_task now (t # ts) =
     (let t' = update now t in
      if \<not> is_waiting t'
      then (Some (start_wait now t'), start_wait now t' # ts)
      else (case get_task now ts of (r, ts') \<Rightarrow> (r, t' # ts')))"

fun in_task :: "string \<Rightarrow> task_queue \<Rightarrow> bool" where
  "in_task tid [] = False"
| "in_task tid (t # ts) = (if task_id t = tid then True else in_task tid ts)"

fun ack_task :: "real \<Rightarrow> string \<Rightarrow> task_queue \<Rightarrow> bool \<times> task_queue" where
  "ack_task now tid [] = (False, [])"
| "ack_task now tid (t # ts) =
     (if task_id t = tid
      then (let t' = update now t in
            if is_waiting t' then (True, ts) else (False, t' # ts))
      else (case ack_task now tid ts of (r, ts') \<Rightarrow> (r, t # ts')))"

subsection \<open>QueueDict\<close>

text \<open>
  The dictionary \<^verbatim>\<open>_queue_dict\<close> from queue names to queues is a map. Answers are the
  byte strings the methods return; encoding text to bytes is the identity here.
\<close>

type_synonym bytes = string

type_synonym queue_dict = "string \<rightharpoonup> task_queue"

definition QueueDict :: queue_dict where
  "QueueDict = Map.empty"

definition QueueDict_add_task :: "string \<Rightarrow> task \<Rightarrow> queue_dict \<Rightarrow> bytes \<times> queue_dict" where
  "QueueDict_add_task queue_name t d =
     (let d' = (case d queue_name of None \<Rightarrow> d(queue_name \<mapsto> TaskQueue) | Some _ \<Rightarrow> d) in
      case d' queue_name of
        None \<Rightarrow> (task_id t, d')
      | Some q \<Rightarrow> (task_id t, d'(queue_name \<mapsto> add_task t q)))"

definition QueueDict_get_task :: "real \<Rightarrow> string \<Rightarrow> queue_dict \<Rightarrow> bytes \<times> queue_dict" where
  "QueueDict_get_task now queue_name d =
     (case d queue_name of
        None \<Rightarrow> (''NONE'', d)
      | Some q \<Rightarrow>
          (case get_task now q of
             (Some t, q') \<Rightarrow>
               (task_id t @ '' '' @ length_f t @ '' '' @ data t, d(queue_name \<mapsto> q'))
           | (None, q') \<Rightarrow> (''NONE'', d(queue_name \<mapsto> q'))))"

definition QueueDict_in_task :: "string \<Rightarrow> string \<Rightarrow> queue_dict \<Rightarrow> bytes" where
  "QueueDict_in_task queue_name tid d =
     (case d queue_name of
        None \<Rightarrow> ''ERROR''
      | Some q \<Rightarrow> if in_task tid q then ''YES'' else ''NO'')"

definition QueueDict_ack_task ::
  "real \<Rightarrow> string \<Rightarrow> string \<Rightarrow> queue_dict \<Rightarrow> bytes \<times> queue_dict" where
  "QueueDict_ack_task now queue_name tid d =
     (case d queue_name of
        None \<Rightarrow> (''ERROR'', d)
      | Some q \<Rightarrow>
          (case ack_task now tid q of
             (True, q') \<Rightarrow> (''YES'', d(queue_name \<mapsto> q'))
           | (False, q') \<Rightarrow> (''NO'', d(queue_name \<mapsto> q'))))"

subsubsection \<open>The snapshot\<close>

text \<open>
  The disk is a map from paths to the contents of regular files. POSIX
  \<^verbatim>\<open>os.path.join\<close> of two components is \<open>path_join\<close>. Serialisation is the library's: the
  two functions of \<^verbatim>\<open>pickle\<close> are the fields of a record that the persistence functions
  take as an argument; \<open>load\<close> gives \<open>None\<close> where \<^verbatim>\<open>pickle.load\<close> raises.

  Opening a file for writing truncates it, and either the opening or the writing may
  fail: which of them does is the \<open>fault\<close> the environment injects into a save.
  \<open>WriteFails k\<close> is a write that stops after \<open>k\<close> bytes.
\<close>

type_synonym files = "string \<rightharpoonup> bytes"

record pickle =
  dump :: "queue_dict \<Rightarrow> bytes"
  load :: "bytes \<Rightarrow> queue_dict option"

datatype fault = NoFault | OpenFails | WriteFails nat

definition path_join :: "string \<Rightarrow> string \<Rightarrow> string" where
  "path_join a b =
     (if take 1 b = ''/'' then b
      else if a = [] \<or> take 1 (rev a) = ''/'' then a @ b
      else a @ ''/'' @ b)"

definition QueueDict_init_from_base ::
  "pickle \<Rightarrow> string \<Rightarrow> files \<Rightarrow> queue_dict \<Rightarrow> exn + queue_dict" where
  "QueueDict_init_from_base pk path fs d =
     (let p = path_join path ''server.log'' in
      case fs p of
        None \<Rightarrow> Inr d
      | Some content \<Rightarrow>
          if length content > 0
          then (case load pk content of None \<Rightarrow> Inl UnpicklingError | Some d' \<Rightarrow> Inr d')
          else Inr d)"

definition QueueDict_save_to_drive ::
  "pickle \<Rightarrow> fault \<Rightarrow> string \<Rightarrow> queue_dict \<Rightarrow> files \<Rightarrow> (exn + bytes) \<times> files" where
  "QueueDict_save_to_drive pk flt path d fs =
     (let p = path_join path ''server.log'' in
      case flt of
        OpenFails \<Rightarrow> (Inl OSError, fs)
      | WriteFails k \<Rightarrow> (Inl OSError, fs(p \<mapsto> take k (dump pk d)))
      | NoFault \<Rightarrow> (Inr ''OK'', fs(p \<mapsto> dump pk d)))"

subsection \<open>Text of a request\<close>

text \<open>
  \<^verbatim>\<open>data.split()\<close> cuts the text at runs of white space and drops empty pieces. The
  white space characters below are those of Python among the first 256 code points.
\<close>

definition is_space :: "char \<Rightarrow> bool" where
  "is_space c = ((of_char c :: nat) \<in> set [9, 10, 11, 12, 13, 28, 29, 30, 31, 32, 133, 160])"

fun split_from :: "string \<Rightarrow> string \<Rightarrow> string list" where
  "split_from cur [] = (if cur = [] then [] else [cur])"
| "split_from cur (c # cs) =
     (if is_space c
      then (if cur = [] then split_from [] cs else cur # split_from [] cs)
      else split_from (cur @ [c]) cs)"

definition str_split :: "string \<Rightarrow> string list" where
  "str_split s = split_from [] s"

text \<open>
  \<^verbatim>\<open>int(s)\<close> on text: an optional sign, then decimal digits, where single underscores
  may stand between digits; anything else raises \<^verbatim>\<open>ValueError\<close> (\<open>None\<close>). The tokens it
  is applied to come from \<^verbatim>\<open>split\<close> and hold no white space. The interpreter's bound on
  the number of digits of a numeral is not modelled.
\<close>

definition is_digit :: "char \<Rightarrow> bool" where
  "is_digit c = (48 \<le> (of_char c :: nat) \<and> (of_char c :: nat) \<le> 57)"

definition digit_val :: "char \<Rightarrow> nat" where
  "digit_val c = of_char c - 48"

fun parse_digits :: "nat \<Rightarrow> bool \<Rightarrow> string \<Rightarrow> nat option" where
  "parse_digits acc after_digit [] = (if after_digit then Some acc else None)"
| "parse_digits acc after_digit (c # cs) =
     (if is_digit c then parse_digits (10 * acc + digit_val c) True cs
      else if c = CHR ''_'' \<and> after_digit then parse_digits acc False cs
      else None)"

definition int_of_str :: "string \<Rightarrow> int option" where
  "int_of_str s =
     (case s of
        [] \<Rightarrow> None
      | c # cs \<Rightarrow>
          if c = CHR ''-'' then map_option (\<lambda>n. - int n) (parse_digits 0 False cs)
          else if c = CHR ''+'' then map_option int (parse_digits 0 False cs)
          else map_option int (parse_digits 0 False s))"



subsection \<open>The connection and the environment of a request\<close>

text \<open>
  A connection is the list of the chunks that \<^verbatim>\<open>conn.recv(1024)\<close> is still to return;
  a chunk is \<open>Text s\<close> when its bytes decode to \<open>s\<close> and \<open>Undecodable\<close> when
  \<^verbatim>\<open>decode()\<close> raises \<^verbatim>\<open>UnicodeDecodeError\<close>. When the list is used up the peer has
  closed its side and \<^verbatim>\<open>recv\<close> returns the empty byte string, every time.
\<close>

datatype chunk = Text string | Undecodable

definition recv :: "chunk list \<Rightarrow> chunk \<times> chunk list" where
  "recv conn = (case conn of [] \<Rightarrow> (Text [], []) | c # cs \<Rightarrow> (c, cs))"

record env =
  time_time :: real
  uuid4 :: string
  disk :: fault

subsection \<open>TaskQueueServer\<close>

text \<open>
  The server object holds the registry, the snapshot directory and the default
  visibility timeout; the socket fields are left out. \<open>disk_files\<close> is the disk the
  process writes to and reads from: it is not an attribute of the object, and stands in
  the same record so that one state is threaded through a request.
  The constructor's \<^verbatim>\<open>path or 'server.log'\<close> and \<^verbatim>\<open>timeout or 300\<close> replace \<^verbatim>\<open>None\<close>,
  the empty string and zero.
\<close>

record server =
  srv_queues :: queue_dict
  srv_path :: string
  srv_timeout :: int
  disk_files :: files

definition TaskQueueServer :: "string option \<Rightarrow> int option \<Rightarrow> files \<Rightarrow> server" where
  "TaskQueueServer path tmo fs =
     \<lparr>srv_queues = QueueDict,
      srv_path = (case path of None \<Rightarrow> ''server.log''
                  | Some p \<Rightarrow> if p = [] then ''server.log'' else p),
      srv_timeout = (case tmo of None \<Rightarrow> 300 | Some t \<Rightarrow> if t = 0 then 300 else t),
      disk_files = fs\<rparr>"

text \<open>
  A handler returns what it raises (\<open>Inl\<close>) or its answer (\<open>Inr\<close>), with the state it
  leaves. The loop of \<^verbatim>\<open>recv_add\<close> that reads the rest of the payload need not end: the
  result is an option, and \<open>None\<close> is a call that never returns. The loop's condition
  converts the length token on every round, as the source does.
\<close>

type_synonym outcome = "((exn + bytes) \<times> server) option"

partial_function (option) recv_payload ::
  "chunk list \<Rightarrow> string \<Rightarrow> string \<Rightarrow> (exn + string) option" where
  "recv_payload conn len payload =
     (case int_of_str len of
        None \<Rightarrow> Some (Inl ValueError)
      | Some n \<Rightarrow>
          if int (length payload) < n
          then (case recv conn of
                  (Undecodable, conn') \<Rightarrow> Some (Inl ParserError)
                | (Text d, conn') \<Rightarrow> recv_payload conn' len (payload @ d))
          else Some (Inr payload))"

declare recv_payload.simps [code]

definition recv_add :: "server \<Rightarrow> env \<Rightarrow> string list \<Rightarrow> chunk list \<Rightarrow> outcome" where
  "recv_add s e params conn =
     (if length params \<noteq> 4 then Some (Inl ParserError, s)
      else (case recv_payload conn (params ! 2) (params ! 3) of
              None \<Rightarrow> None
            | Some (Inl x) \<Rightarrow> Some (Inl x, s)
            | Some (Inr payload) \<Rightarrow>
                (case QueueDict_add_task (params ! 1)
                        (Task (uuid4 e) (params ! 2) payload (srv_timeout s)) (srv_queues s) of
                   (answer, d) \<Rightarrow> Some (Inr answer, s\<lparr>srv_queues := d\<rparr>))))"

definition recv_get :: "server \<Rightarrow> env \<Rightarrow> string list \<Rightarrow> outcome" where
  "recv_get s e params =
     (if length params \<noteq> 2 then Some (Inl ParserError, s)
      else (case QueueDict_get_task (time_time e) (params ! 1) (srv_queues s) of
              (answer, d) \<Rightarrow> Some (Inr answer, s\<lparr>srv_queues := d\<rparr>)))"

definition recv_ack :: "server \<Rightarrow> env \<Rightarrow> string list \<Rightarrow> outcome" where
  "recv_ack s e params =
     (if length params \<noteq> 3 then Some (Inl ParserError, s)
      else (case QueueDict_ack_task (time_time e) (params ! 1) (params ! 2) (srv_queues s) of
              (answer, d) \<Rightarrow> Some (Inr answer, s\<lparr>srv_queues := d\<rparr>)))"

definition recv_in :: "server \<Rightarrow> env \<Rightarrow> string list \<Rightarrow> outcome" where
  "recv_in s e params =
     (if length params \<noteq> 3 then Some (Inl ParserError, s)
      else Some (Inr (QueueDict_in_task (params ! 1) (params ! 2) (srv_queues s)), s))"

definition save_to_drive :: "pickle \<Rightarrow> server \<Rightarrow> env \<Rightarrow> string list \<Rightarrow> outcome" where
  "save_to_drive pk s e params =
     (if length params \<noteq> 1 then Some (Inl ParserError, s)
      else (case QueueDict_save_to_drive pk (disk e) (srv_path s) (srv_queues s) (disk_files s) of
              (r, fs) \<Rightarrow> Some (r, s\<lparr>disk_files := fs\<rparr>)))"

definition make_answer :: "pickle \<Rightarrow> server \<Rightarrow> env \<Rightarrow> string \<Rightarrow> chunk list \<Rightarrow> outcome" where
  "make_answer pk s e dat conn =
     (let params = str_split dat in
      case params of
        [] \<Rightarrow> Some (Inl IndexError, s)
      | cmd # _ \<Rightarrow>
          if cmd = ''ADD'' then recv_add s e params conn
          else if cmd = ''GET'' then recv_get s e params
          else if cmd = ''ACK'' then recv_ack s e params
          else if cmd = ''IN'' then recv_in s e params
          else if cmd = ''SAVE'' then save_to_drive pk s e params
          else Some (Inr ''ERROR'', s))"

definition server_recv :: "pickle \<Rightarrow> server \<Rightarrow> env \<Rightarrow> chunk \<Rightarrow> chunk list \<Rightarrow> outcome" where
  "server_recv pk s e dat conn =
     (case dat of
        Undecodable \<Rightarrow> Some (Inr ''ERROR'', s)
      | Text d \<Rightarrow>
          (case make_answer pk s e d conn of
             None \<Rightarrow> None
           | Some (Inl x, s') \<Rightarrow>
               if x = ParserError then Some (Inr ''ERROR'', s') else Some (Inl x, s')
           | Some (Inr answer, s') \<Rightarrow> Some (Inr answer, s')))"

text \<open>
  The loop of \<^verbatim>\<open>run\<close> serves one connection after the other; it catches
  \<^verbatim>\<open>KeyboardInterrupt\<close> only, so any exception that leaves \<open>server_recv\<close> ends the loop
  and the process before an answer is sent. The result is the list of answers sent,
  the exception that ended the loop if one did, and the last state. Before the loop,
  \<^verbatim>\<open>run\<close> loads the snapshot.
\<close>

fun accept_loop ::
  "pickle \<Rightarrow> server \<Rightarrow> (env \<times> chunk list) list \<Rightarrow> (bytes list \<times> exn option \<times> server) option" where
  "accept_loop pk s [] = Some ([], None, s)"
| "accept_loop pk s ((e, conn) # rest) =
     (case recv conn of
        (dat, conn') \<Rightarrow>
          (case server_recv pk s e dat conn' of
             None \<Rightarrow> None
           | Some (Inl x, s') \<Rightarrow> Some ([], Some x, s')
           | Some (Inr answer, s') \<Rightarrow>
               (case accept_loop pk s' rest of
                  None \<Rightarrow> None
                | Some (answers, x, s'') \<Rightarrow> Some (answer # answers, x, s''))))"

definition run ::
  "pickle \<Rightarrow> server \<Rightarrow> (env \<times> chunk list) list \<Rightarrow> (bytes list \<times> exn option \<times> server) option" where
  "run pk s conns =
     (case QueueDict_init_from_base pk (srv_path s) (disk_files s) (srv_queues s) of
        Inl x \<Rightarrow> Some ([], Some x, s)
      | Inr d \<Rightarrow> accept_loop pk (s\<lparr>srv_queues := d\<rparr>) conns)"

section \<open>Predicates of the statements\<close>

text \<open>
  The invariant of a task: the start of the wait is recorded exactly when the task is
  waiting. It is lifted to a queue and to the registry.
\<close>

definition task_inv :: "task \<Rightarrow> bool" where
  "task_inv t = ((start_wait_time t \<noteq> None) = is_waiting t)"

definition queue_inv :: "task_queue \<Rightarrow> bool" where
  "queue_inv q = list_all task_inv q"

definition dict_inv :: "queue_dict \<Rightarrow> bool" where
  "dict_inv d = (\<forall>queue_name q. d queue_name = Some q \<longrightarrow> queue_inv q)"

text \<open>
  \<open>expired now t\<close>: the condition under which \<open>update\<close> ends the wait of \<open>t\<close>.
  \<open>lazy_step now t t'\<close>: from \<open>t\<close> to \<open>t'\<close> the flag does not go from false to true, and
  goes from true to false only when the wait has expired.
  \<open>dispatched now t t'\<close>: \<open>t'\<close> is \<open>t\<close> handed out by \<open>get_task\<close>.
\<close>

definition expired :: "real \<Rightarrow> task \<Rightarrow> bool" where
  "expired now t =
     (case start_wait_time t of
        None \<Rightarrow> False
      | Some s \<Rightarrow> int_of_float (float_sub now s) \<ge> timeout t)"

definition lazy_step :: "real \<Rightarrow> task \<Rightarrow> task \<Rightarrow> bool" where
  "lazy_step now t t' =
     ((is_waiting t' \<longrightarrow> is_waiting t) \<and> (is_waiting t \<and> \<not> is_waiting t' \<longrightarrow> expired now t))"

definition dispatched :: "real \<Rightarrow> task \<Rightarrow> task \<Rightarrow> bool" where
  "dispatched now t t' = (\<not> is_waiting (update now t) \<and> t' = start_wait now (update now t))"







subsection \<open>Example data\<close>




definition ex_pickle :: pickle where
  "ex_pickle = \<lparr>dump = (\<lambda>_. ''P''), load = (\<lambda>_. None)\<rparr>"

definition ex_env :: env where
  "ex_env = \<lparr>time_time = 150, uuid4 = ''id-1'', disk = NoFault\<rparr>"

definition ex_server :: server where
  "ex_server = \<lparr>srv_queues = [''1'' \<mapsto> [start_wait 100 (Task ''a'' ''5'' ''12345'' 300)]],
      srv_path = ''./'', srv_timeout = 300, disk_files = Map.empty\<rparr>"


text \<open>The answer of a request without the state, and the queue under a name.\<close>

definition answer_of :: "outcome \<Rightarrow> (exn + bytes) option" where
  "answer_of r = map_option fst r"

definition queue_of :: "server \<Rightarrow> string \<Rightarrow> task_queue" where
  "queue_of s queue_name = (case srv_queues s queue_name of None \<Rightarrow> [] | Some q \<Rightarrow> q)"

text \<open>
  A serialisation for the examples that writes one byte and reads back the registry of
  \<open>ex_server\<close>, and a queue whose first task was handed out at 100.
\<close>

definition ex_pickle_back :: pickle where
  "ex_pickle_back = \<lparr>dump = (\<lambda>_. ''P''), load = (\<lambda>_. Some (srv_queues ex_server))\<rparr>"

definition ex_queue_w :: task_queue where
  "ex_queue_w = [start_wait 100 (Task ''a'' ''5'' ''12345'' 300), Task ''b'' ''1'' ''y'' 300]"

section \<open>Properties\<close>

subsection \<open>Rounding of floats\<close>

lemma round_half_even_of_int: "round_half_even (real_of_int m) = m"
  by (simp add: round_half_even_def)

lemma round_half_even_ge_floor: "\<lfloor>y\<rfloor> \<le> round_half_even y"
  by (simp add: round_half_even_def Let_def)

lemma round_half_even_ge_int:
  assumes "real_of_int m \<le> y"
  shows "m \<le> round_half_even y"
proof -
  from assms have "m \<le> \<lfloor>y\<rfloor>" by (simp add: le_floor_iff)
  with round_half_even_ge_floor [of y] show ?thesis by linarith
qed


lemma float_ulp_small:
  assumes "float_exponent x \<le> 52"
  shows "float_ulp x = 1 / 2 ^ nat (52 - float_exponent x)"
proof -
  have "float_exponent x - 52 = - int (nat (52 - float_exponent x))"
    using assms by simp
  then have "float_ulp x = 2 powr (- real (nat (52 - float_exponent x)))"
    unfolding float_ulp_def by (metis of_int_minus of_int_of_nat_eq)
  then show ?thesis by (simp add: powr_minus powr_realpow inverse_eq_divide)
qed

lemma float_ulp_large:
  assumes "52 \<le> float_exponent x"
  shows "float_ulp x = 2 ^ nat (float_exponent x - 52)"
proof -
  have "float_exponent x - 52 = int (nat (float_exponent x - 52))"
    using assms by simp
  then have "float_ulp x = 2 powr (real (nat (float_exponent x - 52)))"
    unfolding float_ulp_def by (metis of_int_of_nat_eq)
  then show ?thesis by (simp add: powr_realpow)
qed

text \<open>A positive integer of at most 53 bits that is below \<open>d\<close> is below the rounded \<open>d\<close>.\<close>

lemma float_round_ge_int:
  assumes c: "0 < c" "c \<le> 2 ^ 53" and d: "real_of_int c \<le> d"
  shows "real_of_int c \<le> float_round d"
proof -
  from c d have d1: "1 \<le> d" by linarith
  then have d0: "d \<noteq> 0" "0 < d" "\<bar>d\<bar> = d" by simp_all
  have le: "2 powr real_of_int \<lfloor>log 2 d\<rfloor> \<le> d"
    using d0(2) by (metis floor_log_eq_powr_iff one_less_numeral_iff semiring_norm(76))
  have e0: "0 \<le> \<lfloor>log 2 d\<rfloor>"
    using d1 by (simp add: zero_le_log_cancel_iff)
  then have e: "float_exponent d = \<lfloor>log 2 d\<rfloor>"
    by (simp add: float_exponent_def d0(3))
  show ?thesis
  proof (cases "float_exponent d \<le> 52")
    case True
    define N :: nat where "N = 2 ^ nat (52 - float_exponent d)"
    have u: "float_ulp d = 1 / real N"
      using float_ulp_small [OF True] by (simp add: N_def)
    have N0: "0 < real N" by (simp add: N_def)
    have "real_of_int (c * int N) \<le> d / float_ulp d"
      using d N0 by (simp add: u mult_right_mono)
    then have "c * int N \<le> round_half_even (d / float_ulp d)"
      by (rule round_half_even_ge_int)
    then have "real_of_int (c * int N) \<le> real_of_int (round_half_even (d / float_ulp d))"
      by (simp only: of_int_le_iff)
    then have "real_of_int c * real N \<le> real_of_int (round_half_even (d / float_ulp d))"
      by simp
    then have "real_of_int c \<le> real_of_int (round_half_even (d / float_ulp d)) / real N"
      using N0 by (simp add: pos_le_divide_eq)
    then show ?thesis
      using d0(1) by (simp add: float_round_def u)
  next
    case False
    then have big: "53 \<le> float_exponent d" by simp
    define k :: nat where "k = nat (float_exponent d - 52)"
    have u: "float_ulp d = 2 ^ k"
      using float_ulp_large [of d] big by (simp add: k_def)
    have ek: "float_exponent d = int (52 + k)"
      using big by (simp add: k_def)
    have "(2::real) ^ (52 + k) \<le> d"
      using le e ek by (metis of_int_of_nat_eq powr_realpow zero_less_numeral)
    then have "(2::real) ^ 52 * 2 ^ k \<le> d"
      by (simp add: power_add)
    then have "real_of_int (2 ^ 52) \<le> d / float_ulp d"
      by (simp add: u pos_le_divide_eq)
    then have "2 ^ 52 \<le> round_half_even (d / float_ulp d)"
      by (rule round_half_even_ge_int)
    then have "real_of_int (2 ^ 52) \<le> real_of_int (round_half_even (d / float_ulp d))"
      by (simp only: of_int_le_iff)
    then have "(2::real) ^ 52 * 2 ^ k \<le> float_round d"
      using d0(1) by (simp add: float_round_def u mult.commute mult_left_mono)
    moreover have "(2::real) ^ 53 \<le> 2 ^ 52 * 2 ^ k"
    proof -
      have "1 \<le> k" using big by (simp add: k_def)
      then have "(2::real) ^ 1 \<le> 2 ^ k" by (intro power_increasing) simp_all
      then show ?thesis by simp
    qed
    moreover have "real_of_int c \<le> 2 ^ 53"
      using c(2) by (metis of_int_le_iff of_int_numeral of_int_power)
    ultimately show ?thesis by linarith
  qed
qed

text \<open>Integers of at most 53 bits are floats: rounding leaves them as they are.\<close>

lemma float_round_of_int:
  assumes "\<bar>n\<bar> \<le> 2 ^ 53"
  shows "float_round (real_of_int n) = real_of_int n"
proof (cases "n = 0")
  case True
  then show ?thesis by (simp add: float_round_def)
next
  case False
  define x where "x = real_of_int n"
  have x0: "x \<noteq> 0" and x1: "1 \<le> \<bar>x\<bar>"
    using False by (simp_all add: x_def)
  have e0: "0 \<le> \<lfloor>log 2 \<bar>x\<bar>\<rfloor>"
    using x1 by (simp add: zero_le_log_cancel_iff)
  then have e: "float_exponent x = \<lfloor>log 2 \<bar>x\<bar>\<rfloor>"
    by (simp add: float_exponent_def)
  have le: "2 powr real_of_int (float_exponent x) \<le> \<bar>x\<bar>"
    unfolding e using x1
    by (metis floor_log_eq_powr_iff one_less_numeral_iff semiring_norm(76) zero_less_abs_iff x0)
  have xb: "\<bar>x\<bar> \<le> 2 ^ 53"
    using assms unfolding x_def by (metis of_int_abs of_int_le_iff of_int_numeral of_int_power)
  show ?thesis
  proof (cases "float_exponent x \<le> 52")
    case True
    define N :: nat where "N = 2 ^ nat (52 - float_exponent x)"
    have u: "float_ulp x = 1 / real N"
      using float_ulp_small [OF True] by (simp add: N_def)
    have N0: "real N \<noteq> 0" by (simp add: N_def)
    have "x / float_ulp x = real_of_int (n * int N)"
      unfolding u by (simp add: x_def)
    then have "round_half_even (x / float_ulp x) = n * int N"
      by (simp only: round_half_even_of_int)
    then have "float_round x = x"
      using x0 N0 unfolding float_round_def u by (simp add: x_def)
    then show ?thesis by (simp add: x_def)
  next
    case False
    then have big: "53 \<le> float_exponent x" by simp
    define k :: nat where "k = nat (float_exponent x - 53)"
    have ek: "float_exponent x = int (53 + k)"
      using big by (simp add: k_def)
    have "(2::real) ^ (53 + k) \<le> \<bar>x\<bar>"
      using le ek by (metis of_int_of_nat_eq powr_realpow zero_less_numeral)
    with xb have "(2::real) ^ (53 + k) \<le> 2 ^ 53" by linarith
    then have "53 + k \<le> 53" by (simp only: power_increasing_iff [of "2::real"])
    then have k0: "k = 0" by simp
    with \<open>(2::real) ^ (53 + k) \<le> \<bar>x\<bar>\<close> xb have ax: "\<bar>x\<bar> = 2 ^ 53" by simp
    have u: "float_ulp x = 2"
      using float_ulp_large [of x] ek k0 by simp
    from ax have "\<bar>n\<bar> = 2 ^ 53"
      unfolding x_def by (metis of_int_abs of_int_eq_iff of_int_numeral of_int_power)
    then have "n = 2 * 2 ^ 52 \<or> n = 2 * (- (2 ^ 52))" by (simp add: abs_if split: if_splits)
    then obtain m where m: "n = 2 * m" by blast
    have "x / float_ulp x = real_of_int m"
      unfolding u by (simp add: x_def m)
    then have "round_half_even (x / float_ulp x) = m"
      by (simp only: round_half_even_of_int)
    then have "float_round x = x"
      using x0 unfolding float_round_def u by (simp add: x_def m)
    then show ?thesis by (simp add: x_def)
  qed
qed

lemma float_round_numeral:
  "numeral w \<le> (9007199254740992::int) \<Longrightarrow> float_round (numeral w) = numeral w"
  using float_round_of_int [of "numeral w"] by simp


subsection \<open>Task and TaskQueue: basic facts\<close>

lemma task_id_update: "task_id (update now t) = task_id t"
  by (simp add: update_def split: option.splits)


lemma in_task_iff: "in_task tid q \<longleftrightarrow> tid \<in> task_id ` set q"
  by (induction q) auto

lemma ack_task_absent: "\<not> in_task tid q \<Longrightarrow> ack_task now tid q = (False, q)"
  by (induction q) (auto split: if_splits)

lemma ack_task_fail_ids:
  "\<not> fst (ack_task now tid q) \<Longrightarrow> map task_id (snd (ack_task now tid q)) = map task_id q"
  by (induction q) (auto simp: Let_def task_id_update split: prod.splits if_splits)

lemma ack_task_success_iff:
  "distinct (map task_id q) \<Longrightarrow>
     fst (ack_task now tid q) \<longleftrightarrow> (\<exists>t\<in>set q. task_id t = tid \<and> is_waiting (update now t))"
  by (induction q) (auto simp: Let_def split: prod.splits)

lemma ack_task_success_removes:
  "distinct (map task_id q) \<Longrightarrow> fst (ack_task now tid q) \<Longrightarrow>
     snd (ack_task now tid q) = filter (\<lambda>t. task_id t \<noteq> tid) q"
proof (induction q)
  case Nil
  then show ?case by simp
next
  case (Cons t ts)
  show ?case
  proof (cases "task_id t = tid")
    case True
    from Cons.prems(1) have "task_id t \<notin> task_id ` set ts" by simp
    then have "\<forall>x\<in>set ts. task_id x \<noteq> task_id t" by (metis image_eqI)
    with True have "\<forall>x\<in>set ts. task_id x \<noteq> tid" by simp
    then have "filter (\<lambda>t. task_id t \<noteq> tid) ts = ts" by (simp add: filter_id_conv)
    with True Cons.prems show ?thesis by (auto simp: Let_def split: if_splits)
  next
    case False
    with Cons show ?thesis by (auto split: prod.splits)
  qed
qed

subsection \<open>Acknowledgement\<close>

text \<open>
  Claim C1. In a queue whose task identifiers are pairwise distinct, for every clock
  reading and every identifier: \<open>ack_task\<close> succeeds if and only if the queue holds a
  task with that identifier that is still waiting after its refresh. On success
  exactly that task is removed, so \<open>in_task\<close> is false afterwards and a following
  \<open>ack_task\<close> of the same identifier, at any later reading \<open>now'\<close>, fails and leaves the
  queue as it is. On failure no task is removed: the queue holds the same identifiers in
  the same order.
\<close>

theorem ack_task_spec:
  assumes "distinct (map task_id q)"
  shows "(fst (ack_task now tid q) \<longleftrightarrow>
            (\<exists>t\<in>set q. task_id t = tid \<and> is_waiting (update now t)))
       \<and> (fst (ack_task now tid q) \<longrightarrow>
            snd (ack_task now tid q) = filter (\<lambda>t. task_id t \<noteq> tid) q
          \<and> \<not> in_task tid (snd (ack_task now tid q))
          \<and> ack_task now' tid (snd (ack_task now tid q)) = (False, snd (ack_task now tid q)))
       \<and> (\<not> fst (ack_task now tid q) \<longrightarrow>
            map task_id (snd (ack_task now tid q)) = map task_id q
          \<and> in_task tid (snd (ack_task now tid q)) = in_task tid q)"
proof (intro conjI impI)
  show "fst (ack_task now tid q) \<longleftrightarrow>
          (\<exists>t\<in>set q. task_id t = tid \<and> is_waiting (update now t))"
    using assms by (rule ack_task_success_iff)
next
  assume ok: "fst (ack_task now tid q)"
  show rm: "snd (ack_task now tid q) = filter (\<lambda>t. task_id t \<noteq> tid) q"
    using assms ok by (rule ack_task_success_removes)
  show gone: "\<not> in_task tid (snd (ack_task now tid q))"
    by (auto simp: rm in_task_iff)
  show "ack_task now' tid (snd (ack_task now tid q)) = (False, snd (ack_task now tid q))"
    using gone by (rule ack_task_absent)
next
  assume ko: "\<not> fst (ack_task now tid q)"
  then show ids: "map task_id (snd (ack_task now tid q)) = map task_id q"
    by (rule ack_task_fail_ids)
  have "set (map task_id (snd (ack_task now tid q))) = set (map task_id q)"
    by (simp only: ids)
  then show "in_task tid (snd (ack_task now tid q)) = in_task tid q"
    by (simp add: in_task_iff)
qed

text \<open>
  The theorem at a queue of two tasks, the first dispatched at 100 with a timeout of
  300: acknowledged at 150 it is removed; at 400 the acknowledgement fails and both
  identifiers stay.
\<close>

theorem ack_task_spec_witness:
  "distinct (map task_id [start_wait 100 (Task ''a'' ''5'' ''12345'' 300), Task ''b'' ''5'' ''12345'' 300])
   \<and> ack_task 150 ''a'' [start_wait 100 (Task ''a'' ''5'' ''12345'' 300), Task ''b'' ''5'' ''12345'' 300]
       = (True, [Task ''b'' ''5'' ''12345'' 300])
   \<and> \<not> in_task ''a'' [Task ''b'' ''5'' ''12345'' 300]
   \<and> ack_task 160 ''a'' [Task ''b'' ''5'' ''12345'' 300] = (False, [Task ''b'' ''5'' ''12345'' 300])
   \<and> \<not> fst (ack_task 400 ''a'' [start_wait 100 (Task ''a'' ''5'' ''12345'' 300), Task ''b'' ''5'' ''12345'' 300])
   \<and> map task_id (snd (ack_task 400 ''a''
        [start_wait 100 (Task ''a'' ''5'' ''12345'' 300), Task ''b'' ''5'' ''12345'' 300])) = [''a'', ''b'']"
proof -
  let ?q = "[start_wait 100 (Task ''a'' ''5'' ''12345'' 300), Task ''b'' ''5'' ''12345'' 300]"
  have d: "distinct (map task_id ?q)"
    by (simp add: start_wait_def Task_def)
  show ?thesis
    using d ack_task_spec [OF d, of 150 "''a''" 160] ack_task_spec [OF d, of 400 "''a''" 160]
    by (simp add: start_wait_def Task_def update_def int_of_float_def float_sub_def
        float_round_numeral)
qed

subsection \<open>Visibility window\<close>















subsection \<open>Requests\<close>

lemmas srv_defs = server_recv_def make_answer_def str_split_def is_space_def
  recv_add_def recv_get_def recv_ack_def recv_in_def save_to_drive_def
  QueueDict_get_task_def QueueDict_in_task_def QueueDict_ack_task_def QueueDict_add_task_def
  QueueDict_save_to_drive_def recv_def

lemmas ex_srv_defs = ex_pickle_def ex_env_def ex_server_def answer_of_def

text \<open>
  Claim C3, as stated, asks for one answer to GET, IN and ACK on an unknown queue that
  differs from the protocol error and from the answer for an empty queue. On the queue
  name \<open>empty\<close>, which the registry does not hold: GET answers \<open>NONE\<close>, which is also the
  answer of GET on the existing queue \<open>1\<close> whose only task is waiting; IN and ACK answer
  \<open>ERROR\<close>, which is also the answer to the unrecognised command \<open>ADDD\<close>.
\<close>

theorem unknown_queue_counterexample:
  "answer_of (server_recv ex_pickle ex_server ex_env (Text ''GET empty'') []) = Some (Inr ''NONE'')
   \<and> answer_of (server_recv ex_pickle ex_server ex_env (Text ''GET 1'') []) = Some (Inr ''NONE'')
   \<and> answer_of (server_recv ex_pickle ex_server ex_env (Text ''IN empty 456789'') []) = Some (Inr ''ERROR'')
   \<and> answer_of (server_recv ex_pickle ex_server ex_env (Text ''ACK empty 456789'') []) = Some (Inr ''ERROR'')
   \<and> answer_of (server_recv ex_pickle ex_server ex_env (Text ''ADDD 1 5 12345'') []) = Some (Inr ''ERROR'')"
  by (simp add: srv_defs ex_srv_defs start_wait_def Task_def update_def int_of_float_def
      float_sub_def float_round_numeral)

text \<open>
  Claim C3, amended. For every queue name that the registry does not hold, no request
  raises: GET on that name answers \<open>NONE\<close>, the answer also given when no task is
  available, and IN and ACK on that name answer \<open>ERROR\<close>, the answer also given to a
  protocol error; the state of the server is left as it was.
\<close>

theorem unknown_queue_answers:
  assumes "srv_queues s queue_name = None"
  shows "(str_split dat = [''GET'', queue_name] \<longrightarrow>
            server_recv pk s e (Text dat) conn = Some (Inr ''NONE'', s))
       \<and> (str_split dat = [''IN'', queue_name, tid] \<longrightarrow>
            server_recv pk s e (Text dat) conn = Some (Inr ''ERROR'', s))
       \<and> (str_split dat = [''ACK'', queue_name, tid] \<longrightarrow>
            server_recv pk s e (Text dat) conn = Some (Inr ''ERROR'', s))"
  using assms
  by (simp add: server_recv_def make_answer_def recv_get_def recv_in_def recv_ack_def
      QueueDict_get_task_def QueueDict_in_task_def QueueDict_ack_task_def)

theorem unknown_queue_answers_witness:
  "srv_queues ex_server ''empty'' = None
   \<and> str_split ''GET empty'' = [''GET'', ''empty'']
   \<and> server_recv ex_pickle ex_server ex_env (Text ''GET empty'') [] = Some (Inr ''NONE'', ex_server)
   \<and> str_split ''IN empty 456789'' = [''IN'', ''empty'', ''456789'']
   \<and> server_recv ex_pickle ex_server ex_env (Text ''IN empty 456789'') [] = Some (Inr ''ERROR'', ex_server)
   \<and> str_split ''ACK empty 456789'' = [''ACK'', ''empty'', ''456789'']
   \<and> server_recv ex_pickle ex_server ex_env (Text ''ACK empty 456789'') [] = Some (Inr ''ERROR'', ex_server)"
proof -
  have u: "srv_queues ex_server ''empty'' = None"
    by (simp add: ex_server_def)
  have g: "str_split ''GET empty'' = [''GET'', ''empty'']"
    and i: "str_split ''IN empty 456789'' = [''IN'', ''empty'', ''456789'']"
    and a: "str_split ''ACK empty 456789'' = [''ACK'', ''empty'', ''456789'']"
    by (simp_all add: str_split_def is_space_def)
  from u g i a
    unknown_queue_answers [OF u, where dat = "''GET empty''" and pk = ex_pickle and e = ex_env
      and conn = "[]" and tid = "''456789''"]
    unknown_queue_answers [OF u, where dat = "''IN empty 456789''" and pk = ex_pickle and e = ex_env
      and conn = "[]" and tid = "''456789''"]
    unknown_queue_answers [OF u, where dat = "''ACK empty 456789''" and pk = ex_pickle and e = ex_env
      and conn = "[]" and tid = "''456789''"]
  show ?thesis by simp
qed

text \<open>
  Claim C4 asks that every request, also the empty one and an ADD whose length is not
  an integer, be answered with \<open>ERROR\<close> without an exception leaving the handler. In the
  code the empty request raises \<^verbatim>\<open>IndexError\<close> at \<^verbatim>\<open>params[0]\<close>, and an ADD with the
  length token \<open>abc\<close> raises \<^verbatim>\<open>ValueError\<close> at \<^verbatim>\<open>int(params[2])\<close>; neither is a
  \<^verbatim>\<open>ParserError\<close>, so each leaves \<open>server_recv\<close> and ends the accept loop with no answer
  sent. The state is not changed on the way.
\<close>

theorem malformed_request_raises:
  "server_recv pk s e (Text '''') conn = Some (Inl IndexError, s)
   \<and> server_recv pk s e (Text ''ADD q abc payload'') conn = Some (Inl ValueError, s)
   \<and> accept_loop pk s ((e, []) # rest) = Some ([], Some IndexError, s)
   \<and> accept_loop pk s ((e, Text ''ADD q abc payload'' # conn) # rest) = Some ([], Some ValueError, s)"
  by (simp add: srv_defs recv_payload.simps int_of_str_def is_digit_def)

subsection \<open>ADD followed by GET\<close>




















subsection \<open>Failure of a save\<close>

text \<open>
  A SAVE whose \<^verbatim>\<open>open\<close> fails has no answer at all: \<^verbatim>\<open>OSError\<close> leaves \<open>server_recv\<close>,
  the accept loop ends and the request that follows is not served; without the fault
  both requests are answered.
\<close>

theorem save_failure_evaluated:
  "answer_of (server_recv ex_pickle ex_server (ex_env\<lparr>disk := OpenFails\<rparr>) (Text ''SAVE'') [])
     = Some (Inl OSError)
   \<and> map_option (\<lambda>(answers, x, s). (answers, x))
       (accept_loop ex_pickle ex_server
          [(ex_env\<lparr>disk := OpenFails\<rparr>, [Text ''SAVE'']), (ex_env, [Text ''IN 1 a''])])
     = Some ([], Some OSError)
   \<and> map_option (\<lambda>(answers, x, s). (answers, x))
       (accept_loop ex_pickle ex_server
          [(ex_env, [Text ''SAVE'']), (ex_env, [Text ''IN 1 a''])])
     = Some ([''OK'', ''YES''], None)"
  by (simp add: srv_defs ex_srv_defs start_wait_def Task_def)

text \<open>
  Claim C7 asks that a SAVE whose snapshot cannot be written be answered with
  something other than \<open>OK\<close>, with the server running on and the registry unchanged.
  In the code \<open>save_to_drive\<close> has no handler: whenever the opening or the writing
  fails, \<^verbatim>\<open>OSError\<close> leaves \<open>server_recv\<close>, which catches \<^verbatim>\<open>ParserError\<close> only, the
  SAVE request gets no answer, and the accept loop ends with the exception and serves
  no later connection. The registry in memory is unchanged at that point. The load
  of the snapshot in \<^verbatim>\<open>run\<close> does catch its I/O error and carries on.
\<close>

theorem save_failure_propagates:
  assumes "str_split dat = [''SAVE'']" and "disk e \<noteq> NoFault"
  shows "\<exists>s'. server_recv pk s e (Text dat) conn = Some (Inl OSError, s')
            \<and> srv_queues s' = srv_queues s
            \<and> accept_loop pk s ((e, Text dat # conn) # rest) = Some ([], Some OSError, s')"
  using assms
  by (cases "disk e")
     (simp_all add: server_recv_def make_answer_def save_to_drive_def QueueDict_save_to_drive_def
        recv_def)

theorem save_failure_propagates_witness:
  "str_split ''SAVE'' = [''SAVE''] \<and> disk (ex_env\<lparr>disk := WriteFails 0\<rparr>) \<noteq> NoFault
   \<and> (\<exists>s'. server_recv ex_pickle ex_server (ex_env\<lparr>disk := WriteFails 0\<rparr>) (Text ''SAVE'') []
              = Some (Inl OSError, s')
          \<and> srv_queues s' = srv_queues ex_server
          \<and> accept_loop ex_pickle ex_server
               [(ex_env\<lparr>disk := WriteFails 0\<rparr>, [Text ''SAVE'']), (ex_env, [Text ''IN 1 a''])]
              = Some ([], Some OSError, s'))"
proof -
  have a: "str_split ''SAVE'' = [''SAVE'']"
    by (simp add: str_split_def is_space_def)
  have b: "disk (ex_env\<lparr>disk := WriteFails 0\<rparr>) \<noteq> NoFault"
    by simp
  from a b save_failure_propagates [OF a b, where pk = ex_pickle and s = ex_server and conn = "[]"
      and rest = "[(ex_env, [Text ''IN 1 a''])]"]
  show ?thesis by simp
qed

subsection \<open>Snapshot\<close>

text \<open>
  Claim C6. Let \<^verbatim>\<open>pickle\<close> keep its contract on the registry of the server: loading what
  was dumped gives the registry back, and a dump is not empty. Then a SAVE request
  without an I/O fault is answered \<open>OK\<close>, leaves the registry as it is, and writes a file
  from which \<open>init_from_base\<close> on the same directory restores the whole registry: every
  queue with every task and every field, \<open>is_waiting\<close> and the absolute
  \<open>start_wait_time\<close> among them. A server started on the same directory and disk begins
  with that registry.
\<close>

theorem snapshot_roundtrip:
  assumes "load pk (dump pk (srv_queues s)) = Some (srv_queues s)"
    and "dump pk (srv_queues s) \<noteq> []"
    and "str_split dat = [''SAVE'']" and "disk e = NoFault"
  shows "\<exists>s'. server_recv pk s e (Text dat) conn = Some (Inr ''OK'', s')
           \<and> srv_queues s' = srv_queues s
           \<and> QueueDict_init_from_base pk (srv_path s) (disk_files s') QueueDict
                = Inr (srv_queues s)
           \<and> (\<forall>s0. srv_path s0 = srv_path s \<and> disk_files s0 = disk_files s' \<longrightarrow>
                 run pk s0 [] = Some ([], None, s0\<lparr>srv_queues := srv_queues s\<rparr>))"
  using assms
  by (simp add: server_recv_def make_answer_def save_to_drive_def run_def
      QueueDict_init_from_base_def QueueDict_save_to_drive_def)

theorem snapshot_roundtrip_witness:
  "load ex_pickle_back (dump ex_pickle_back (srv_queues ex_server)) = Some (srv_queues ex_server)
   \<and> dump ex_pickle_back (srv_queues ex_server) \<noteq> []
   \<and> str_split ''SAVE'' = [''SAVE''] \<and> disk ex_env = NoFault
   \<and> (\<exists>s'. server_recv ex_pickle_back ex_server ex_env (Text ''SAVE'') [] = Some (Inr ''OK'', s')
          \<and> disk_files s' ''./server.log'' = Some ''P''
          \<and> run ex_pickle_back (TaskQueueServer (Some ''./'') None (disk_files s')) []
             = Some ([], None, (TaskQueueServer (Some ''./'') None (disk_files s'))
                  \<lparr>srv_queues := [''1'' \<mapsto> [start_wait 100 (Task ''a'' ''5'' ''12345'' 300)]]\<rparr>))"
proof -
  have a: "load ex_pickle_back (dump ex_pickle_back (srv_queues ex_server))
      = Some (srv_queues ex_server)"
    and b: "dump ex_pickle_back (srv_queues ex_server) \<noteq> []"
    and c: "str_split ''SAVE'' = [''SAVE'']" and d: "disk ex_env = NoFault"
    by (simp_all add: str_split_def is_space_def ex_env_def ex_pickle_back_def)
  from snapshot_roundtrip [OF a b c d, where conn = "[]"]
  obtain s' where
    s': "server_recv ex_pickle_back ex_server ex_env (Text ''SAVE'') [] = Some (Inr ''OK'', s')"
    and r: "\<forall>s0. srv_path s0 = srv_path ex_server \<and> disk_files s0 = disk_files s' \<longrightarrow>
              run ex_pickle_back s0 [] = Some ([], None, s0\<lparr>srv_queues := srv_queues ex_server\<rparr>)"
    by blast
  from s' have f: "disk_files s' ''./server.log'' = Some ''P''"
    by (auto simp: srv_defs ex_server_def ex_env_def path_join_def ex_pickle_back_def)
  from r have "run ex_pickle_back (TaskQueueServer (Some ''./'') None (disk_files s')) []
      = Some ([], None,
          (TaskQueueServer (Some ''./'') None (disk_files s'))\<lparr>srv_queues := srv_queues ex_server\<rparr>)"
    by (simp add: TaskQueueServer_def ex_server_def)
  then have "run ex_pickle_back (TaskQueueServer (Some ''./'') None (disk_files s')) []
      = Some ([], None, (TaskQueueServer (Some ''./'') None (disk_files s'))
           \<lparr>srv_queues := [''1'' \<mapsto> [start_wait 100 (Task ''a'' ''5'' ''12345'' 300)]]\<rparr>)"
    by (simp add: ex_server_def)
  with a b c d s' f show ?thesis by blast
qed

subsection \<open>The invariant of the waiting state\<close>

lemma task_inv_Task: "task_inv (Task tid len dat tmo)"
  by (simp add: task_inv_def Task_def)

lemma task_inv_start_wait: "task_inv (start_wait now t)"
  by (simp add: task_inv_def start_wait_def)

lemma task_inv_update: "task_inv t \<Longrightarrow> task_inv (update now t)"
  by (auto simp: task_inv_def update_def split: option.splits)

lemma lazy_step_update: "lazy_step now t (update now t)"
  by (auto simp: lazy_step_def update_def expired_def split: option.splits)

lemma lazy_step_same: "lazy_step now t t"
  by (simp add: lazy_step_def)

lemma list_all2_lazy_same: "list_all2 (lazy_step now) q q"
  by (simp add: list_all2_same lazy_step_same)

lemma queue_inv_get_task: "queue_inv q \<Longrightarrow> queue_inv (snd (get_task now q))"
  unfolding queue_inv_def
  by (induction q)
     (auto simp: Let_def task_inv_update task_inv_start_wait split: prod.splits)

lemma queue_inv_ack_task: "queue_inv q \<Longrightarrow> queue_inv (snd (ack_task now tid q))"
  unfolding queue_inv_def
  by (induction q) (auto simp: Let_def task_inv_update split: prod.splits)

lemma queue_inv_add_task: "queue_inv q \<Longrightarrow> task_inv t \<Longrightarrow> queue_inv (add_task t q)"
  by (simp add: queue_inv_def add_task_def)

lemma dict_inv_upd: "dict_inv d \<Longrightarrow> queue_inv q \<Longrightarrow> dict_inv (d(queue_name \<mapsto> q))"
  by (simp add: dict_inv_def)

lemma dict_inv_lookup: "dict_inv d \<Longrightarrow> d queue_name = Some q \<Longrightarrow> queue_inv q"
  by (simp add: dict_inv_def)

lemma dict_inv_add_task:
  assumes "dict_inv d" "task_inv t"
  shows "dict_inv (snd (QueueDict_add_task queue_name t d))"
proof (cases "d queue_name")
  case None
  have "queue_inv (add_task t TaskQueue)"
    using assms(2) by (simp add: queue_inv_def add_task_def TaskQueue_def)
  with None assms(1) show ?thesis
    by (simp add: QueueDict_add_task_def dict_inv_upd)
next
  case (Some q)
  with assms have "queue_inv (add_task t q)"
    by (simp add: dict_inv_lookup queue_inv_add_task)
  with Some assms(1) show ?thesis
    by (simp add: QueueDict_add_task_def dict_inv_upd)
qed

lemma dict_inv_get_task:
  assumes "dict_inv d"
  shows "dict_inv (snd (QueueDict_get_task now queue_name d))"
proof (cases "d queue_name")
  case None
  with assms show ?thesis by (simp add: QueueDict_get_task_def)
next
  case (Some q)
  with assms have "queue_inv (snd (get_task now q))"
    by (simp add: dict_inv_lookup queue_inv_get_task)
  with Some assms show ?thesis
    by (auto simp: QueueDict_get_task_def dict_inv_upd split: prod.splits option.splits)
qed

lemma dict_inv_ack_task:
  assumes "dict_inv d"
  shows "dict_inv (snd (QueueDict_ack_task now queue_name tid d))"
proof (cases "d queue_name")
  case None
  with assms show ?thesis by (simp add: QueueDict_ack_task_def)
next
  case (Some q)
  with assms have "queue_inv (snd (ack_task now tid q))"
    by (simp add: dict_inv_lookup queue_inv_ack_task)
  with Some assms show ?thesis
    by (auto simp: QueueDict_ack_task_def dict_inv_upd split: prod.splits bool.splits)
qed

lemma dict_inv_init_from_base:
  assumes "dict_inv d"
    and "\<forall>c d'. fs (path_join path ''server.log'') = Some c \<and> load pk c = Some d' \<longrightarrow> dict_inv d'"
    and "QueueDict_init_from_base pk path fs d = Inr d'"
  shows "dict_inv d'"
  using assms
  by (auto simp: QueueDict_init_from_base_def Let_def split: option.splits if_splits)

lemma get_task_steps:
  "list_all2 (\<lambda>x x'. lazy_step now x x' \<or> (fst (get_task now q) = Some x' \<and> dispatched now x x'))
     q (snd (get_task now q))"
proof (induction q)
  case Nil
  show ?case by simp
next
  case (Cons t ts)
  show ?case
  proof (cases "is_waiting (update now t)")
    case False
    have "list_all2 (\<lambda>x x'. lazy_step now x x' \<or>
            (fst (get_task now (t # ts)) = Some x' \<and> dispatched now x x')) ts ts"
      by (simp add: list_all2_same lazy_step_same)
    with False show ?thesis
      by (simp add: Let_def dispatched_def)
  next
    case True
    then have "fst (get_task now (t # ts)) = fst (get_task now ts)"
      by (simp add: Let_def split: prod.splits)
    with True Cons.IH show ?thesis
      by (simp add: Let_def lazy_step_update split: prod.splits)
  qed
qed

lemma ack_task_steps:
  "if fst (ack_task now tid q)
   then \<exists>ys x zs. q = ys @ x # zs \<and> task_id x = tid \<and> snd (ack_task now tid q) = ys @ zs
   else list_all2 (lazy_step now) q (snd (ack_task now tid q))"
proof (induction q)
  case Nil
  show ?case by simp
next
  case (Cons t ts)
  show ?case
  proof (cases "task_id t = tid")
    case True
    show ?thesis
    proof (cases "is_waiting (update now t)")
      case w: True
      have "t # ts = [] @ t # ts \<and> task_id t = tid \<and> ts = [] @ ts"
        using True by simp
      then have "\<exists>ys x zs. t # ts = ys @ x # zs \<and> task_id x = tid \<and> ts = ys @ zs"
        by blast
      with True w show ?thesis by (simp add: Let_def)
    next
      case False
      with True show ?thesis
        by (simp add: Let_def lazy_step_update list_all2_lazy_same)
    qed
  next
    case False
    then have unf: "ack_task now tid (t # ts) =
        (fst (ack_task now tid ts), t # snd (ack_task now tid ts))"
      by (simp split: prod.splits)
    show ?thesis
    proof (cases "fst (ack_task now tid ts)")
      case ok: True
      with Cons.IH obtain ys x zs where
        "ts = ys @ x # zs" "task_id x = tid" "snd (ack_task now tid ts) = ys @ zs"
        by auto
      then have "t # ts = (t # ys) @ x # zs \<and> task_id x = tid
          \<and> t # snd (ack_task now tid ts) = (t # ys) @ zs"
        by simp
      then have "\<exists>ys' x zs. t # ts = ys' @ x # zs \<and> task_id x = tid
          \<and> t # snd (ack_task now tid ts) = ys' @ zs"
        by blast
      with ok show ?thesis unfolding unf by simp
    next
      case ko: False
      with Cons.IH show ?thesis
        unfolding unf by (simp add: lazy_step_same)
    qed
  qed
qed

text \<open>
  Claim C8. For every task, \<open>start_wait_time\<close> is set if and only if \<open>is_waiting\<close> is
  true (\<open>task_inv\<close>): this holds of a new task and after \<open>start_wait\<close>, and is preserved
  by \<open>update\<close>, by the queue operations \<open>add_task\<close>, \<open>get_task\<close> and \<open>ack_task\<close> and by the
  registry operations of the same names (\<open>in_task\<close> and the save return no queue); loading
  a snapshot keeps it when the mapping read from the file has it. As for the flag:
  \<open>update\<close> never sets it, and clears it only when the wait has expired; \<open>get_task\<close>
  leaves every task unchanged or refreshed but the one it hands out, which it sets
  waiting; \<open>ack_task\<close> on success removes one task with the acknowledged identifier and
  keeps the others as they are, and on failure only refreshes.
\<close>

theorem waiting_invariant:
  "task_inv (Task tid len dat tmo)
   \<and> task_inv (start_wait now t)
   \<and> (task_inv t \<longrightarrow> task_inv (update now t))
   \<and> lazy_step now t (update now t)
   \<and> (queue_inv q \<and> task_inv t \<longrightarrow> queue_inv (add_task t q))
   \<and> (queue_inv q \<longrightarrow> queue_inv (snd (get_task now q)))
   \<and> (queue_inv q \<longrightarrow> queue_inv (snd (ack_task now tid q)))
   \<and> (dict_inv d \<and> task_inv t \<longrightarrow> dict_inv (snd (QueueDict_add_task queue_name t d)))
   \<and> (dict_inv d \<longrightarrow> dict_inv (snd (QueueDict_get_task now queue_name d)))
   \<and> (dict_inv d \<longrightarrow> dict_inv (snd (QueueDict_ack_task now queue_name tid d)))
   \<and> (dict_inv d
        \<and> (\<forall>c d'. fs (path_join path ''server.log'') = Some c \<and> load pk c = Some d' \<longrightarrow> dict_inv d')
        \<and> QueueDict_init_from_base pk path fs d = Inr d1 \<longrightarrow> dict_inv d1)
   \<and> list_all2 (\<lambda>x x'. lazy_step now x x' \<or> (fst (get_task now q) = Some x' \<and> dispatched now x x'))
        q (snd (get_task now q))
   \<and> (if fst (ack_task now tid q)
       then \<exists>ys x zs. q = ys @ x # zs \<and> task_id x = tid \<and> snd (ack_task now tid q) = ys @ zs
       else list_all2 (lazy_step now) q (snd (ack_task now tid q)))"
proof (intro conjI impI)
  show "task_inv (Task tid len dat tmo)" by (rule task_inv_Task)
  show "task_inv (start_wait now t)" by (rule task_inv_start_wait)
  show "task_inv (update now t)" if "task_inv t" using that by (rule task_inv_update)
  show "lazy_step now t (update now t)" by (rule lazy_step_update)
  show "queue_inv (add_task t q)" if "queue_inv q \<and> task_inv t"
    using that by (simp add: queue_inv_add_task)
  show "queue_inv (snd (get_task now q))" if "queue_inv q"
    using that by (rule queue_inv_get_task)
  show "queue_inv (snd (ack_task now tid q))" if "queue_inv q"
    using that by (rule queue_inv_ack_task)
  show "dict_inv (snd (QueueDict_add_task queue_name t d))" if "dict_inv d \<and> task_inv t"
    using that by (simp add: dict_inv_add_task)
  show "dict_inv (snd (QueueDict_get_task now queue_name d))" if "dict_inv d"
    using that by (rule dict_inv_get_task)
  show "dict_inv (snd (QueueDict_ack_task now queue_name tid d))" if "dict_inv d"
    using that by (rule dict_inv_ack_task)
  show "dict_inv d1" if "dict_inv d
        \<and> (\<forall>c d'. fs (path_join path ''server.log'') = Some c \<and> load pk c = Some d' \<longrightarrow> dict_inv d')
        \<and> QueueDict_init_from_base pk path fs d = Inr d1"
    using that dict_inv_init_from_base [of d fs path pk d1] by blast
  show "list_all2 (\<lambda>x x'. lazy_step now x x' \<or> (fst (get_task now q) = Some x' \<and> dispatched now x x'))
        q (snd (get_task now q))"
    by (rule get_task_steps)
  show "if fst (ack_task now tid q)
       then \<exists>ys x zs. q = ys @ x # zs \<and> task_id x = tid \<and> snd (ack_task now tid q) = ys @ zs
       else list_all2 (lazy_step now) q (snd (ack_task now tid q))"
    by (rule ack_task_steps)
qed

theorem waiting_invariant_witness:
  "task_inv (start_wait 100 (Task ''a'' ''5'' ''12345'' 300))
   \<and> queue_inv ex_queue_w
   \<and> dict_inv [''1'' \<mapsto> ex_queue_w]
   \<and> QueueDict_init_from_base ex_pickle_back ''./'' [''./server.log'' \<mapsto> ''P''] [''1'' \<mapsto> ex_queue_w]
       = Inr (srv_queues ex_server)
   \<and> dict_inv (srv_queues ex_server)
   \<and> task_inv (update 400 (start_wait 100 (Task ''a'' ''5'' ''12345'' 300)))
   \<and> queue_inv (add_task (start_wait 100 (Task ''a'' ''5'' ''12345'' 300)) ex_queue_w)
   \<and> queue_inv (snd (get_task 400 ex_queue_w))
   \<and> queue_inv (snd (ack_task 400 ''a'' ex_queue_w))
   \<and> dict_inv (snd (QueueDict_add_task ''1'' (start_wait 100 (Task ''a'' ''5'' ''12345'' 300))
        [''1'' \<mapsto> ex_queue_w]))
   \<and> dict_inv (snd (QueueDict_get_task 400 ''1'' [''1'' \<mapsto> ex_queue_w]))
   \<and> dict_inv (snd (QueueDict_ack_task 400 ''1'' ''a'' [''1'' \<mapsto> ex_queue_w]))
   \<and> \<not> fst (ack_task 400 ''a'' ex_queue_w)
   \<and> list_all2 (lazy_step 400) ex_queue_w (snd (ack_task 400 ''a'' ex_queue_w))
   \<and> fst (ack_task 150 ''a'' ex_queue_w)
   \<and> (\<exists>ys x zs. ex_queue_w = ys @ x # zs \<and> task_id x = ''a''
        \<and> snd (ack_task 150 ''a'' ex_queue_w) = ys @ zs)"
proof -
  let ?t = "start_wait 100 (Task ''a'' ''5'' ''12345'' 300)"
  let ?d = "[''1'' \<mapsto> ex_queue_w]"
  let ?fs = "[''./server.log'' \<mapsto> ''P'']"
  have h1: "task_inv ?t"
    by (simp add: task_inv_def start_wait_def)
  have h2: "queue_inv ex_queue_w"
    by (simp add: queue_inv_def ex_queue_w_def task_inv_def start_wait_def Task_def)
  have h3: "dict_inv ?d"
    using h2 by (simp add: dict_inv_def)
  have h4: "dict_inv (srv_queues ex_server)"
    by (simp add: dict_inv_def ex_server_def queue_inv_def task_inv_def start_wait_def)
  have h5: "\<forall>c d'. ?fs (path_join ''./'' ''server.log'') = Some c
        \<and> load ex_pickle_back c = Some d' \<longrightarrow> dict_inv d'"
    using h4 by (auto simp: ex_pickle_back_def)
  have h6: "QueueDict_init_from_base ex_pickle_back ''./'' ?fs ?d = Inr (srv_queues ex_server)"
    by (simp add: QueueDict_init_from_base_def path_join_def ex_pickle_back_def)
  have h7: "\<not> fst (ack_task 400 ''a'' ex_queue_w)"
    and h8: "fst (ack_task 150 ''a'' ex_queue_w)"
    by (simp_all add: ex_queue_w_def start_wait_def Task_def update_def int_of_float_def
        float_sub_def float_round_numeral)
  note w400 = waiting_invariant [where now = 400 and t = ?t and q = ex_queue_w and tid = "''a''"
      and d = ?d and queue_name = "''1''" and fs = ?fs and path = "''./''" and pk = ex_pickle_back
      and ?d1.0 = "srv_queues ex_server"]
  note w150 = waiting_invariant [where now = 150 and t = ?t and q = ex_queue_w and tid = "''a''"
      and d = ?d and queue_name = "''1''" and fs = ?fs and path = "''./''" and pk = ex_pickle_back
      and ?d1.0 = "srv_queues ex_server"]
  from w400 h1 have c1: "task_inv (update 400 ?t)" by blast
  from w400 h1 h2 have c2: "queue_inv (add_task ?t ex_queue_w)" by blast
  from w400 h2 have c3: "queue_inv (snd (get_task 400 ex_queue_w))" by blast
  from w400 h2 have c4: "queue_inv (snd (ack_task 400 ''a'' ex_queue_w))" by blast
  from w400 h1 h3 have c5: "dict_inv (snd (QueueDict_add_task ''1'' ?t ?d))" by blast
  from w400 h3 have c6: "dict_inv (snd (QueueDict_get_task 400 ''1'' ?d))" by blast
  from w400 h3 have c7: "dict_inv (snd (QueueDict_ack_task 400 ''1'' ''a'' ?d))" by blast
  from w400 have "if fst (ack_task 400 ''a'' ex_queue_w)
       then \<exists>ys x zs. ex_queue_w = ys @ x # zs \<and> task_id x = ''a''
              \<and> snd (ack_task 400 ''a'' ex_queue_w) = ys @ zs
       else list_all2 (lazy_step 400) ex_queue_w (snd (ack_task 400 ''a'' ex_queue_w))"
    by blast
  with h7 have c8: "list_all2 (lazy_step 400) ex_queue_w (snd (ack_task 400 ''a'' ex_queue_w))"
    by simp
  from w150 have "if fst (ack_task 150 ''a'' ex_queue_w)
       then \<exists>ys x zs. ex_queue_w = ys @ x # zs \<and> task_id x = ''a''
              \<and> snd (ack_task 150 ''a'' ex_queue_w) = ys @ zs
       else list_all2 (lazy_step 150) ex_queue_w (snd (ack_task 150 ''a'' ex_queue_w))"
    by blast
  with h8 have c9: "\<exists>ys x zs. ex_queue_w = ys @ x # zs \<and> task_id x = ''a''
        \<and> snd (ack_task 150 ''a'' ex_queue_w) = ys @ zs"
    by simp
  from w400 h3 h5 h6 have c10: "dict_inv (srv_queues ex_server)" by blast
  from h1 h2 h3 h6 c10 c1 c2 c3 c4 c5 c6 c7 h7 c8 h8 c9 show ?thesis
    by (intro conjI)
qed

subsection \<open>A failed acknowledgement refreshes the task\<close>

lemma ack_task_skip:
  "\<forall>y\<in>set ys. task_id y \<noteq> tid \<Longrightarrow>
     ack_task now tid (ys @ q) = (fst (ack_task now tid q), ys @ snd (ack_task now tid q))"
  by (induction ys) (simp_all split: prod.splits)

lemma get_task_skip:
  "list_all (\<lambda>y. is_waiting (update now y)) ys \<Longrightarrow>
     get_task now (ys @ q) = (fst (get_task now q), map (update now) ys @ snd (get_task now q))"
  by (induction ys) (simp_all add: Let_def split: prod.splits)

lemma get_task_available:
  "x \<in> set q \<Longrightarrow> \<not> is_waiting (update now x) \<Longrightarrow> fst (get_task now q) \<noteq> None"
  by (induction q) (auto simp: Let_def split: prod.splits)

text \<open>
  Claim C9. Let \<open>t\<close> be the first task of the queue with its identifier, waiting, with
  its visibility window elapsed at \<open>now\<close>: by the float difference that \<open>update\<close>
  computes, or by the exact difference of the readings when the timeout is positive
  and of at most 53 bits. Then \<open>ack_task\<close> of that identifier fails and
  yet changes the queue: the task is left with \<open>is_waiting\<close> false and
  \<open>start_wait_time\<close> cleared. The task is then available: the next \<open>get_task\<close>, at any
  reading \<open>now'\<close>, hands out a task, and hands out this one when the tasks before it
  are waiting.
\<close>

theorem failed_ack_refreshes:
  assumes "\<forall>y\<in>set ys. task_id y \<noteq> task_id t"
    and "is_waiting t" and "start_wait_time t = Some s0"
    and "timeout t \<le> int_of_float (float_sub now s0)
         \<or> (0 < timeout t \<and> timeout t \<le> 2 ^ 53 \<and> timeout t \<le> int_of_float (now - s0))"
  shows "ack_task now (task_id t) (ys @ t # zs)
           = (False, ys @ t\<lparr>is_waiting := False, start_wait_time := None\<rparr> # zs)
       \<and> ys @ t\<lparr>is_waiting := False, start_wait_time := None\<rparr> # zs \<noteq> ys @ t # zs
       \<and> fst (get_task now' (ys @ t\<lparr>is_waiting := False, start_wait_time := None\<rparr> # zs)) \<noteq> None
       \<and> (list_all (\<lambda>y. is_waiting (update now' y)) ys \<longrightarrow>
            fst (get_task now' (ys @ t\<lparr>is_waiting := False, start_wait_time := None\<rparr> # zs))
              = Some (start_wait now' (t\<lparr>is_waiting := False, start_wait_time := None\<rparr>)))"
proof -
  let ?t' = "t\<lparr>is_waiting := False, start_wait_time := None\<rparr>"
  have ex: "timeout t \<le> int_of_float (float_sub now s0)"
    using assms(4)
  proof
    assume "timeout t \<le> int_of_float (float_sub now s0)"
    then show ?thesis .
  next
    assume r: "0 < timeout t \<and> timeout t \<le> 2 ^ 53 \<and> timeout t \<le> int_of_float (now - s0)"
    have "real_of_int (timeout t) \<le> now - s0"
    proof (cases "0 \<le> now - s0")
      case True
      with r show ?thesis by (simp add: int_of_float_def le_floor_iff)
    next
      case False
      then have "\<lceil>now - s0\<rceil> \<le> 0" by (simp add: ceiling_le_iff)
      with r False show ?thesis by (simp add: int_of_float_def)
    qed
    with r have "real_of_int (timeout t) \<le> float_round (now - s0)"
      by (simp add: float_round_ge_int)
    with r show ?thesis
      by (simp add: float_sub_def int_of_float_def le_floor_iff)
  qed
  have u: "update now t = ?t'"
    using assms(3) ex by (simp add: update_def)
  have u': "update now' ?t' = ?t'"
    by (simp add: update_def)
  have "ack_task now (task_id t) (t # zs) = (False, ?t' # zs)"
    by (simp add: u)
  with ack_task_skip [OF assms(1), of now "t # zs"]
  have 1: "ack_task now (task_id t) (ys @ t # zs) = (False, ys @ ?t' # zs)" by simp
  have 2: "ys @ ?t' # zs \<noteq> ys @ t # zs"
  proof
    assume "ys @ ?t' # zs = ys @ t # zs"
    then have "?t' = t" by simp
    then have "is_waiting ?t' = is_waiting t" by (rule arg_cong)
    with assms(2) show False by simp
  qed
  have "\<not> is_waiting (update now' ?t')" by (simp add: u')
  then have 3: "fst (get_task now' (ys @ ?t' # zs)) \<noteq> None"
    by (rule get_task_available [rotated]) simp
  have 4: "list_all (\<lambda>y. is_waiting (update now' y)) ys \<longrightarrow>
            fst (get_task now' (ys @ ?t' # zs)) = Some (start_wait now' ?t')"
  proof
    assume "list_all (\<lambda>y. is_waiting (update now' y)) ys"
    from get_task_skip [OF this, of "?t' # zs"] show
      "fst (get_task now' (ys @ ?t' # zs)) = Some (start_wait now' ?t')"
      by (simp add: u' Let_def)
  qed
  from 1 2 3 4 show ?thesis by (intro conjI)
qed

theorem failed_ack_refreshes_witness:
  "list_all (\<lambda>y. task_id y \<noteq> task_id (start_wait 100 (Task ''a'' ''5'' ''12345'' 300)))
     [start_wait 350 (Task ''b'' ''1'' ''y'' 300)]
   \<and> is_waiting (start_wait 100 (Task ''a'' ''5'' ''12345'' 300))
   \<and> start_wait_time (start_wait 100 (Task ''a'' ''5'' ''12345'' 300)) = Some 100
   \<and> 0 < timeout (start_wait 100 (Task ''a'' ''5'' ''12345'' 300))
   \<and> timeout (start_wait 100 (Task ''a'' ''5'' ''12345'' 300)) \<le> 2 ^ 53
   \<and> timeout (start_wait 100 (Task ''a'' ''5'' ''12345'' 300)) \<le> int_of_float (400 - 100)
   \<and> list_all (\<lambda>y. is_waiting (update 401 y)) [start_wait 350 (Task ''b'' ''1'' ''y'' 300)]
   \<and> ack_task 400 ''a''
        [start_wait 350 (Task ''b'' ''1'' ''y'' 300), start_wait 100 (Task ''a'' ''5'' ''12345'' 300)]
       = (False, [start_wait 350 (Task ''b'' ''1'' ''y'' 300), Task ''a'' ''5'' ''12345'' 300])
   \<and> fst (get_task 401
        [start_wait 350 (Task ''b'' ''1'' ''y'' 300), Task ''a'' ''5'' ''12345'' 300])
       = Some (start_wait 401 (Task ''a'' ''5'' ''12345'' 300))"
proof -
  let ?b = "start_wait 350 (Task ''b'' ''1'' ''y'' 300)"
  let ?a = "start_wait 100 (Task ''a'' ''5'' ''12345'' 300)"
  have h1: "\<forall>y\<in>set [?b]. task_id y \<noteq> task_id ?a"
    and h2: "is_waiting ?a" and h3: "start_wait_time ?a = Some 100"
    and h4: "0 < timeout ?a" "timeout ?a \<le> 2 ^ 53" "timeout ?a \<le> int_of_float (400 - 100)"
    and h5: "list_all (\<lambda>y. is_waiting (update 401 y)) [?b]"
    by (simp_all add: start_wait_def Task_def int_of_float_def update_def float_sub_def
        float_round_numeral)
  from h4 have h4': "timeout ?a \<le> int_of_float (float_sub 400 100)
      \<or> (0 < timeout ?a \<and> timeout ?a \<le> 2 ^ 53 \<and> timeout ?a \<le> int_of_float (400 - 100))"
    by blast
  from h1 h2 h3 h4 h5 failed_ack_refreshes [OF h1 h2 h3 h4', of "[]" 401]
  show ?thesis by (simp add: start_wait_def Task_def)
qed

subsection \<open>The length field\<close>

lemma recv_payload_result:
  assumes "recv_payload conn len payload = Some y"
  shows "\<forall>p. y = Inr p \<longrightarrow>
           (\<exists>n. int_of_str len = Some n \<and> n \<le> int (length p)) \<and> prefix payload p"
proof (rule recv_payload.raw_induct
    [where P = "\<lambda>conn len payload y. \<forall>p. y = Inr p \<longrightarrow>
           (\<exists>n. int_of_str len = Some n \<and> n \<le> int (length p)) \<and> prefix payload p",
     OF _ assms])
  fix rp :: "chunk list \<Rightarrow> string \<Rightarrow> string \<Rightarrow> (exn + string) option"
  fix conn len payload y
  assume IH: "\<And>conn len payload y. rp conn len payload = Some y \<Longrightarrow>
      \<forall>p. y = Inr p \<longrightarrow>
           (\<exists>n. int_of_str len = Some n \<and> n \<le> int (length p)) \<and> prefix payload p"
  assume eq: "(case int_of_str len of
        None \<Rightarrow> Some (Inl ValueError)
      | Some n \<Rightarrow>
          if int (length payload) < n
          then (case recv conn of
                  (Undecodable, conn') \<Rightarrow> Some (Inl ParserError)
                | (Text d, conn') \<Rightarrow> rp conn' len (payload @ d))
          else Some (Inr payload)) = Some y"
  show "\<forall>p. y = Inr p \<longrightarrow>
           (\<exists>n. int_of_str len = Some n \<and> n \<le> int (length p)) \<and> prefix payload p"
  proof (cases "int_of_str len")
    case None
    with eq show ?thesis by auto
  next
    case (Some n)
    show ?thesis
    proof (cases "int (length payload) < n")
      case False
      with Some eq show ?thesis by auto
    next
      case True
      obtain c conn' where r: "recv conn = (c, conn')" by (cases "recv conn")
      show ?thesis
      proof (cases c)
        case Undecodable
        with True Some r eq show ?thesis by auto
      next
        case (Text d)
        with True Some r eq have "rp conn' len (payload @ d) = Some y" by simp
        from IH [OF this] show ?thesis
          by (auto dest: append_prefixD)
      qed
    qed
  qed
qed

lemma get_task_fields:
  "get_task now q = (Some t, q') \<Longrightarrow>
     \<exists>x\<in>set q. task_id t = task_id x \<and> length_f t = length_f x \<and> data t = data x"
proof (induction q arbitrary: q')
  case Nil
  then show ?case by simp
next
  case (Cons a q)
  show ?case
  proof (cases "is_waiting (update now a)")
    case False
    with Cons.prems have "t = start_wait now (update now a)" by (simp add: Let_def)
    then show ?thesis by (auto simp: start_wait_def update_def split: option.splits)
  next
    case True
    with Cons.prems obtain q'' where "get_task now q = (Some t, q'')"
      by (auto simp: Let_def split: prod.splits)
    from Cons.IH [OF this] show ?thesis by auto
  qed
qed

text \<open>
  Claim C10. Whenever \<open>recv_add\<close> completes with an answer, the task it appends has the
  third token of the request as its length field, unparsed, and as its payload the
  fourth token followed by whole chunks received: the token is a prefix of the payload
  and the number of characters of the payload is at least the integer the length
  token denotes. A GET answers with the identifier, the length field and the payload
  of a task of the queue as they were stored. The payload may be longer than declared:
  \<open>ADD 2 1 hello\<close> is answered by GET with \<open>1 hello\<close>, and \<open>ADD 3 7 12345\<close> completed by
  the chunks \<open>6\<close> and \<open>789\<close> with \<open>7 123456789\<close>.
\<close>

theorem length_field_verbatim:
  "(recv_add s e params conn = Some (Inr answer, s') \<longrightarrow>
      (\<exists>payload n.
          s' = s\<lparr>srv_queues := (srv_queues s)(params ! 1 \<mapsto>
                  queue_of s (params ! 1) @ [Task (uuid4 e) (params ! 2) payload (srv_timeout s)])\<rparr>
        \<and> prefix (params ! 3) payload
        \<and> int_of_str (params ! 2) = Some n \<and> n \<le> int (length payload)))
   \<and> (d queue_name = Some q \<and> get_task now q = (Some t, q') \<longrightarrow>
        fst (QueueDict_get_task now queue_name d) = task_id t @ '' '' @ length_f t @ '' '' @ data t
      \<and> (\<exists>x\<in>set q. task_id t = task_id x \<and> length_f t = length_f x \<and> data t = data x))
   \<and> map_option (\<lambda>(answers, x, s). (answers, x))
        (accept_loop ex_pickle ex_server
           [(ex_env, [Text ''ADD 2 1 hello'']), (ex_env, [Text ''GET 2'']),
            (ex_env\<lparr>uuid4 := ''id-2''\<rparr>, [Text ''ADD 3 7 12345'', Text ''6'', Text ''789'']),
            (ex_env, [Text ''GET 3''])])
       = Some ([''id-1'', ''id-1 1 hello'', ''id-2'', ''id-2 7 123456789''], None)"
proof (intro conjI impI)
  assume a: "recv_add s e params conn = Some (Inr answer, s')"
  then have len: "length params = 4"
    by (auto simp: recv_add_def split: if_splits)
  with a obtain payload where p: "recv_payload conn (params ! 2) (params ! 3) = Some (Inr payload)"
    and s': "s' = s\<lparr>srv_queues := snd (QueueDict_add_task (params ! 1)
                 (Task (uuid4 e) (params ! 2) payload (srv_timeout s)) (srv_queues s))\<rparr>"
    by (auto simp: recv_add_def split: option.splits sum.splits prod.splits)
  from recv_payload_result [OF p] obtain n where
    n: "int_of_str (params ! 2) = Some n" "n \<le> int (length payload)"
    and pre: "prefix (params ! 3) payload" by auto
  have "snd (QueueDict_add_task (params ! 1)
                 (Task (uuid4 e) (params ! 2) payload (srv_timeout s)) (srv_queues s))
        = (srv_queues s)(params ! 1 \<mapsto>
                  queue_of s (params ! 1) @ [Task (uuid4 e) (params ! 2) payload (srv_timeout s)])"
    by (simp add: QueueDict_add_task_def queue_of_def TaskQueue_def add_task_def
        split: option.splits)
  with s' n pre show "\<exists>payload n.
          s' = s\<lparr>srv_queues := (srv_queues s)(params ! 1 \<mapsto>
                  queue_of s (params ! 1) @ [Task (uuid4 e) (params ! 2) payload (srv_timeout s)])\<rparr>
        \<and> prefix (params ! 3) payload
        \<and> int_of_str (params ! 2) = Some n \<and> n \<le> int (length payload)"
    by auto
next
  assume "d queue_name = Some q \<and> get_task now q = (Some t, q')"
  then show "fst (QueueDict_get_task now queue_name d)
      = task_id t @ '' '' @ length_f t @ '' '' @ data t"
    by (simp add: QueueDict_get_task_def)
next
  assume "d queue_name = Some q \<and> get_task now q = (Some t, q')"
  then show "\<exists>x\<in>set q. task_id t = task_id x \<and> length_f t = length_f x \<and> data t = data x"
    by (auto dest: get_task_fields)
next
  show "map_option (\<lambda>(answers, x, s). (answers, x))
        (accept_loop ex_pickle ex_server
           [(ex_env, [Text ''ADD 2 1 hello'']), (ex_env, [Text ''GET 2'']),
            (ex_env\<lparr>uuid4 := ''id-2''\<rparr>, [Text ''ADD 3 7 12345'', Text ''6'', Text ''789'']),
            (ex_env, [Text ''GET 3''])])
       = Some ([''id-1'', ''id-1 1 hello'', ''id-2'', ''id-2 7 123456789''], None)"
    by code_simp
qed

theorem length_field_verbatim_witness:
  "recv_add ex_server ex_env [''ADD'', ''2'', ''1'', ''hello''] []
     = Some (Inr ''id-1'', ex_server\<lparr>srv_queues := (srv_queues ex_server)(''2'' \<mapsto>
                  queue_of ex_server ''2'' @ [Task ''id-1'' ''1'' ''hello'' 300])\<rparr>)
   \<and> queue_of ex_server ''2'' = []
   \<and> (\<exists>payload n.
          prefix ''hello'' payload \<and> int_of_str ''1'' = Some n \<and> n \<le> int (length payload))
   \<and> [''2'' \<mapsto> [Task ''id-1'' ''1'' ''hello'' 300]] ''2'' = Some [Task ''id-1'' ''1'' ''hello'' 300]
   \<and> get_task 150 [Task ''id-1'' ''1'' ''hello'' 300]
       = (Some (start_wait 150 (Task ''id-1'' ''1'' ''hello'' 300)),
          [start_wait 150 (Task ''id-1'' ''1'' ''hello'' 300)])
   \<and> fst (QueueDict_get_task 150 ''2'' [''2'' \<mapsto> [Task ''id-1'' ''1'' ''hello'' 300]])
       = ''id-1 1 hello''"
proof -
  let ?t = "Task ''id-1'' ''1'' ''hello'' 300"
  let ?s' = "ex_server\<lparr>srv_queues := (srv_queues ex_server)(''2'' \<mapsto> queue_of ex_server ''2'' @ [?t])\<rparr>"
  have q: "queue_of ex_server ''2'' = []"
    by (simp add: queue_of_def ex_server_def)
  have a: "recv_add ex_server ex_env [''ADD'', ''2'', ''1'', ''hello''] [] = Some (Inr ''id-1'', ?s')"
    by (simp add: recv_add_def recv_payload.simps int_of_str_def is_digit_def digit_val_def
        QueueDict_add_task_def q TaskQueue_def add_task_def ex_env_def)
       (simp add: ex_server_def Task_def TaskQueue_def add_task_def)
  have d: "[''2'' \<mapsto> [?t]] ''2'' = Some [?t]"
    by simp
  have g: "get_task 150 [?t] = (Some (start_wait 150 ?t), [start_wait 150 ?t])"
    by (simp add: Task_def update_def start_wait_def)
  from length_field_verbatim [where s = ex_server and e = ex_env
      and params = "[''ADD'', ''2'', ''1'', ''hello'']" and conn = "[]" and answer = "''id-1''"
      and s' = ?s' and d = "[''2'' \<mapsto> [?t]]" and queue_name = "''2''" and q = "[?t]"
      and now = 150 and t = "start_wait 150 ?t" and q' = "[start_wait 150 ?t]"]
    a d g
  have c1: "\<exists>payload n. ?s' = ex_server\<lparr>srv_queues := (srv_queues ex_server)(''2'' \<mapsto>
                  queue_of ex_server ''2'' @ [Task ''id-1'' ''1'' payload 300])\<rparr>
        \<and> prefix ''hello'' payload \<and> int_of_str ''1'' = Some n \<and> n \<le> int (length payload)"
    and c2: "fst (QueueDict_get_task 150 ''2'' [''2'' \<mapsto> [?t]])
        = task_id (start_wait 150 ?t) @ '' '' @ length_f (start_wait 150 ?t) @ '' '' @ data (start_wait 150 ?t)"
    by (simp_all add: ex_env_def ex_server_def)
  from c1 have c1': "\<exists>payload n.
          prefix ''hello'' payload \<and> int_of_str ''1'' = Some n \<and> n \<le> int (length payload)"
    by blast
  from c2 have c2': "fst (QueueDict_get_task 150 ''2'' [''2'' \<mapsto> [?t]]) = ''id-1 1 hello''"
    by (simp add: start_wait_def Task_def)
  from a q c1' d g c2' show ?thesis by (intro conjI)
qed

end
